theory Spec2Isabelle
  imports Main "HOL-Library.Sublist" "HOL-Library.AList"
begin

section \<open>Markup Balancer (markdown\_utils.py)\<close>

text \<open>
  Python strings are modelled as \<^typ>\<open>string\<close>, one \<^typ>\<open>char\<close> per character of the
  source string. \<open>ensure_valid_markdown\<close> scans the text with an index \<open>i\<close>; the model
  recurses on the part of the text that is still to be read, \<open>text[i:]\<close>.

  \<open>stack\<close> and \<open>result\<close> are Python lists of strings and are kept as lists of strings
  with the same orientation: \<open>append\<close> adds at the end, \<open>stack[-1]\<close> is \<^const>\<open>last\<close> and
  \<open>stack.pop()\<close> leaves \<^const>\<open>butlast\<close>.
\<close>

definition single_char_symbols :: "char set" where
  "single_char_symbols = {CHR ''*'', CHR ''`'', CHR ''~''}"

text \<open>The set \<open>multi_char_symbols\<close> of the source has the one element below, so the
  \<open>for symbol in multi_char_symbols\<close> loop is a single comparison.\<close>

definition multi_char_symbol :: string where
  "multi_char_symbol = ''```''"

fun balance_loop :: "string list \<Rightarrow> string list \<Rightarrow> string \<Rightarrow> string list \<times> string list" where
  "balance_loop stack result [] = (stack, result)"
| "balance_loop stack result (c # cs) =
    (if take 3 (c # cs) = multi_char_symbol then
       balance_loop
         (if stack \<noteq> [] \<and> last stack = multi_char_symbol then butlast stack
          else stack @ [multi_char_symbol])
         (result @ [multi_char_symbol]) (drop 3 (c # cs))
     else if c \<in> single_char_symbols then
       balance_loop
         (if stack \<noteq> [] \<and> last stack = [c] then butlast stack else stack @ [[c]])
         (result @ [[c]]) cs
     else balance_loop stack (result @ [[c]]) cs)"

text \<open>The closing loop \<open>while stack: result.append(stack.pop())\<close> appends the stack
  from its top, that is in reverse.\<close>

definition ensure_valid_markdown :: "string \<Rightarrow> string" where
  "ensure_valid_markdown text =
     (if text = [] then []
      else (case balance_loop [] [] text of (stack, result) \<Rightarrow> concat (result @ rev stack)))"

text \<open>The delimiters still open when the scan of a text ends, bottom of the stack first.\<close>

definition unclosed :: "string \<Rightarrow> string list" where
  "unclosed text = fst (balance_loop [] [] text)"

definition delimiter_tokens :: "string set" where
  "delimiter_tokens = {''*'', ''`'', ''~'', ''```''}"

text \<open>A stack that holds single-character delimiters other than the backtick only.\<close>

definition plain_stack :: "string list \<Rightarrow> bool" where
  "plain_stack stack = (\<forall>e\<in>set stack. e = ''*'' \<or> e = ''~'')"


section \<open>Chunk Splitter (send\_long\_message, first half)\<close>

text \<open>
  \<open>str.strip()\<close> removes the characters for which \<open>str.isspace\<close> holds from both ends.
  With one \<^typ>\<open>char\<close> per character these are the white-space characters below
  code point 256.
\<close>

definition newline :: char where
  "newline = CHR 0x0A"

definition isspace :: "char \<Rightarrow> bool" where
  "isspace c = (c \<in> {CHR 0x09, CHR 0x0A, CHR 0x0B, CHR 0x0C, CHR 0x0D,
                       CHR 0x1C, CHR 0x1D, CHR 0x1E, CHR 0x1F, CHR 0x20, CHR 0x85, CHR 0xA0})"

definition strip :: "string \<Rightarrow> string" where
  "strip s = rev (dropWhile isspace (rev (dropWhile isspace s)))"

text \<open>\<open>text_to_send.split('\n')\<close>: the pieces between line breaks; never an empty list.\<close>

fun split_nl :: "string \<Rightarrow> string list" where
  "split_nl [] = [[]]"
| "split_nl (c # cs) =
     (if c = newline then [] # split_nl cs
      else (case split_nl cs of [] \<Rightarrow> [[c]] | l # ls \<Rightarrow> (c # l) # ls))"

text \<open>\<open>range(0, len(line), limit)\<close> raises \<open>ValueError\<close> when \<open>limit\<close> is zero.\<close>

datatype py_error = ValueError

text \<open>
  \<open>[line[k:k + limit] for k in range(0, len(line), limit)]\<close>. This is only reached with
  \<open>len(line) > limit\<close>, so a negative \<open>limit\<close> gives an empty range and a positive one
  the slices at \<open>0, limit, 2 * limit, \<dots>\<close>.
\<close>

definition line_slices :: "int \<Rightarrow> string \<Rightarrow> string list" where
  "line_slices limit line =
     (if limit < 0 then []
      else map (\<lambda>j. take (nat limit) (drop (j * nat limit) line))
             [0 ..< (length line + nat limit - 1) div nat limit])"

text \<open>
  The loop \<open>for i, line in enumerate(lines)\<close> over the lines still to be read, with the
  loop state \<open>chunks\<close>, \<open>current_chunk\<close>. The test \<open>i < len(lines) - 1\<close> holds exactly
  when lines remain after the current one.
\<close>

fun pack_lines ::
  "int \<Rightarrow> string list \<Rightarrow> string list \<Rightarrow> string \<Rightarrow> py_error + string list \<times> string" where
  "pack_lines limit [] chunks current_chunk = Inr (chunks, current_chunk)"
| "pack_lines limit (line # rest) chunks current_chunk =
    (if int (length line) > limit then
       (if limit = 0 then Inl ValueError
        else pack_lines limit rest
               ((if current_chunk \<noteq> [] then chunks @ [strip current_chunk] else chunks)
                @ line_slices limit line) [])
     else if int (length current_chunk) + int (length line) + 1 \<le> limit then
       pack_lines limit rest chunks
         (current_chunk @ line @ (if rest \<noteq> [] then [newline] else []))
     else pack_lines limit rest (chunks @ [strip current_chunk])
            (line @ (if rest \<noteq> [] then [newline] else [])))"

definition split_chunks :: "int \<Rightarrow> string \<Rightarrow> py_error + string list" where
  "split_chunks limit s =
     (case pack_lines limit (split_nl s) [] [] of
        Inl e \<Rightarrow> Inl e
      | Inr (chunks, current_chunk) \<Rightarrow>
          Inr (if strip current_chunk \<noteq> [] then chunks @ [strip current_chunk] else chunks))"


text \<open>
  For the statement that the chunks give the text back: \<open>'\n'.join(lines)\<close>, the inverse
  of the split into lines, and the relation between a piece of the text and the chunk cut
  from it, which are equal once both are stripped.
\<close>

fun unsplit :: "string list \<Rightarrow> string" where
  "unsplit [] = []"
| "unsplit [l] = l"
| "unsplit (l # ls) = l @ [newline] @ unsplit ls"

definition same_trimmed :: "string \<Rightarrow> string \<Rightarrow> bool" where
  "same_trimmed p c = (strip p = strip c)"


section \<open>Delivery Engine (send\_long\_message, second half)\<close>

text \<open>
  \<open>context.bot.send_message\<close> is the transport. Its behaviour is a parameter: the outcome
  of the \<open>k\<close>-th call made during one delivery, counted from 0. An outcome is a normal
  return or one of the exceptions the source distinguishes, in the order of its
  \<open>except\<close> clauses.
\<close>

datatype parse_mode = MARKDOWN | MARKDOWN_V2 | HTML

datatype send_outcome =
    Sent
  | RetryAfter nat
  | BadRequest string
  | TelegramError
  | OtherException

text \<open>
  What a delivery does, in order: a send of chunk \<open>i\<close> (text, reply reference, parse
  mode), a send of an error notice (no reply reference, no parse mode), the sleep after
  a rate limit, and the 0.7 second pause between chunks.
\<close>

datatype event =
    SendChunk nat string "int option" "parse_mode option"
  | SendNotice string
  | Sleep nat
  | Pace

record delivery =
  calls :: nat
  trace :: "event list"

text \<open>\<open>str.lower()\<close> on characters below code point 256.\<close>

definition char_lower :: "char \<Rightarrow> char" where
  "char_lower c =
     (let n = (of_char c :: nat)
      in if (65 \<le> n \<and> n \<le> 90) \<or> (192 \<le> n \<and> n \<le> 222 \<and> n \<noteq> 215)
         then char_of (n + 32) else c)"

definition cant_parse_entities :: string where
  "cant_parse_entities = ''can'' @ [CHR 0x27] @ ''t parse entities''"

text \<open>\<open>"can't parse entities" in str(e_bad_request).lower()\<close>\<close>

definition is_parse_failure :: "string \<Rightarrow> bool" where
  "is_parse_failure msg = sublist cant_parse_entities (map char_lower msg)"

definition max_retries_markdown_fail :: nat where
  "max_retries_markdown_fail = 1"

definition bad_request_notice :: string where
  "bad_request_notice = ''Maaf, terjadi kesalahan saat mengirim balasan (BadRequest).''"

definition telegram_error_notice :: string where
  "telegram_error_notice = ''Maaf, terjadi kesalahan Telegram saat mengirim balasan.''"

definition unexpected_error_notice :: string where
  "unexpected_error_notice = ''Maaf, terjadi kesalahan tak terduga saat mengirim balasan.''"

text \<open>A call of \<open>send_message\<close> is recorded and counted; a sleep is only recorded.\<close>

definition call_send :: "event \<Rightarrow> delivery \<Rightarrow> delivery" where
  "call_send e st = st\<lparr>calls := calls st + 1, trace := trace st @ [e]\<rparr>"

definition log_event :: "event \<Rightarrow> delivery \<Rightarrow> delivery" where
  "log_event e st = st\<lparr>trace := trace st @ [e]\<rparr>"

text \<open>
  The loop \<open>for attempt in range(max_retries_markdown_fail + 1)\<close> for chunk \<open>i\<close>, over the
  attempt numbers still to come. \<open>break\<close> ends the recursion; falling out of an
  \<open>except\<close> clause goes on to the next attempt. The error notice is sent inside
  \<open>try: \<dots> except: pass\<close>, so its own outcome is ignored.
\<close>

fun attempt_loop ::
  "(nat \<Rightarrow> send_outcome) \<Rightarrow> nat \<Rightarrow> string \<Rightarrow> int option \<Rightarrow> nat list \<Rightarrow>
   string \<Rightarrow> parse_mode option \<Rightarrow> delivery \<Rightarrow> delivery" where
  "attempt_loop transport i chunk_text reply_to_message_id []
     text_for_current_chunk current_parse_mode st = st"
| "attempt_loop transport i chunk_text reply_to_message_id (attempt # later)
     text_for_current_chunk current_parse_mode st =
    (let current_reply_id = (if i = 0 then reply_to_message_id else None);
         st1 = call_send
                 (SendChunk i text_for_current_chunk current_reply_id current_parse_mode) st
     in case transport (calls st) of
          Sent \<Rightarrow> st1
        | RetryAfter retry_after \<Rightarrow>
            attempt_loop transport i chunk_text reply_to_message_id later
              text_for_current_chunk current_parse_mode (log_event (Sleep retry_after) st1)
        | BadRequest msg \<Rightarrow>
            if is_parse_failure msg \<and> current_parse_mode = Some MARKDOWN
               \<and> attempt < max_retries_markdown_fail
            then attempt_loop transport i chunk_text reply_to_message_id later chunk_text None st1
            else if i = 0 then call_send (SendNotice bad_request_notice) st1 else st1
        | TelegramError \<Rightarrow>
            if i = 0 then call_send (SendNotice telegram_error_notice) st1 else st1
        | OtherException \<Rightarrow>
            if i = 0 \<and> reply_to_message_id = None
            then call_send (SendNotice unexpected_error_notice) st1 else st1)"

text \<open>
  The text and parse mode of the first attempt for a chunk: in Markdown mode the chunk is
  balanced again, and sent as it is in plain format if balancing left nothing but white
  space of a chunk that had more.
\<close>

definition prepare_chunk :: "parse_mode option \<Rightarrow> string \<Rightarrow> string \<times> parse_mode option" where
  "prepare_chunk parse_mode chunk_text =
     (if parse_mode = Some MARKDOWN then
        (let text_for_current_chunk = ensure_valid_markdown chunk_text
         in if strip text_for_current_chunk = [] \<and> strip chunk_text \<noteq> []
            then (chunk_text, None)
            else (text_for_current_chunk, parse_mode))
      else (chunk_text, parse_mode))"

text \<open>\<open>if len(chunks) > 1 and i < len(chunks) - 1: await asyncio.sleep(0.7)\<close>\<close>

definition pause_after :: "nat \<Rightarrow> nat \<Rightarrow> delivery \<Rightarrow> delivery" where
  "pause_after n i st = (if n > 1 \<and> i < n - 1 then log_event Pace st else st)"

text \<open>
  The loop \<open>for i, chunk_text in enumerate(chunks)\<close>; \<open>n\<close> is \<open>len(chunks)\<close>. An empty
  chunk is skipped by \<open>continue\<close>, which also skips the pause after it. A \<open>break\<close> in
  the attempt loop leaves that loop only: the pause and the next chunk follow.
\<close>

fun chunk_loop ::
  "(nat \<Rightarrow> send_outcome) \<Rightarrow> int option \<Rightarrow> parse_mode option \<Rightarrow> nat \<Rightarrow>
   (nat \<times> string) list \<Rightarrow> delivery \<Rightarrow> delivery" where
  "chunk_loop transport reply_to_message_id parse_mode n [] st = st"
| "chunk_loop transport reply_to_message_id parse_mode n ((i, chunk_text) # rest) st =
    (if chunk_text = [] then chunk_loop transport reply_to_message_id parse_mode n rest st
     else
       chunk_loop transport reply_to_message_id parse_mode n rest
         (pause_after n i
            (attempt_loop transport i chunk_text reply_to_message_id
               [0 ..< max_retries_markdown_fail + 1]
               (fst (prepare_chunk parse_mode chunk_text))
               (snd (prepare_chunk parse_mode chunk_text)) st)))"

text \<open>An event that is not the send of an empty chunk text.\<close>

definition nonempty_send :: "event \<Rightarrow> bool" where
  "nonempty_send e = (case e of SendChunk i body r m \<Rightarrow> body \<noteq> [] | _ \<Rightarrow> True)"

text \<open>An event that is not a chunk send, or a chunk send whose reply reference is the
  caller's for chunk 0 and none for every other chunk.\<close>

definition reply_only_first :: "int option \<Rightarrow> event \<Rightarrow> bool" where
  "reply_only_first r e =
     (case e of SendChunk i body rid m \<Rightarrow> rid = (if i = 0 then r else None) | _ \<Rightarrow> True)"


text \<open>A delivery that has not called the transport.\<close>

definition idle :: delivery where
  "idle = \<lparr>calls = 0, trace = []\<rparr>"

text \<open>
  \<open>send_long_message\<close>. \<open>TELEGRAM_MAX_MESSAGE_LENGTH\<close> is read from the configuration
  (4096 when it is not set) and is a parameter here. The result is what the delivery did,
  or the exception that leaves the function.
\<close>

definition send_long_message ::
  "(nat \<Rightarrow> send_outcome) \<Rightarrow> int \<Rightarrow> string \<Rightarrow> int option \<Rightarrow> parse_mode option \<Rightarrow>
   string option \<Rightarrow> py_error + delivery" where
  "send_long_message transport TELEGRAM_MAX_MESSAGE_LENGTH text_to_send reply_to_message_id
     parse_mode original_text_if_markdown_fails =
    (let fallback = (text_to_send = [] \<and>
            (case original_text_if_markdown_fails of
               None \<Rightarrow> False
             | Some original \<Rightarrow> original \<noteq> [] \<and> strip original \<noteq> []))
     in if text_to_send = [] \<and> \<not> fallback then Inr idle
        else
          let text1 = (if fallback then the original_text_if_markdown_fails else text_to_send);
              parse_mode1 = (if fallback then None else parse_mode);
              limit = TELEGRAM_MAX_MESSAGE_LENGTH - 20
          in case split_chunks limit text1 of
               Inl e \<Rightarrow> Inl e
             | Inr chunks \<Rightarrow>
                 if chunks = [] then Inr idle
                 else Inr (chunk_loop transport reply_to_message_id parse_mode1 (length chunks)
                             (zip [0 ..< length chunks] chunks) idle))"


section \<open>Submission Aggregator (handle\_photo\_message, process\_media\_group\_callback)\<close>

text \<open>
  The dictionary that \<open>handle_photo_message\<close> stores for each photo of a media group.
  \<open>caption_for_ai\<close> is \<open>None\<close> for a photo without caption and can be the empty string
  when the caption is a trigger command with nothing after it. \<open>is_reply_to_bot\<close> is the
  truth value of the stored expression.
\<close>

record image_item =
  file_id :: string
  caption_for_ai :: "string option"
  original_caption :: "string option"
  message_id :: int
  is_reply_to_bot :: bool
  trigger_command_used_info :: "string option"

text \<open>Python's truth value of an optional string: neither \<open>None\<close> nor empty.\<close>

definition truthy :: "string option \<Rightarrow> bool" where
  "truthy v = (case v of None \<Rightarrow> False | Some s \<Rightarrow> s \<noteq> [])"

text \<open>
  The choice of \<open>final_text_prompt\<close> in \<open>process_media_group_callback\<close>: the first loop
  stops at the first photo that used a trigger command or replies to the bot and takes its
  \<open>caption_for_ai\<close>; the second loop runs only if the result \<open>is None\<close>; the default
  replaces a result that is \<open>None\<close> or empty. \<open>DEFAULT_PROMPT_FOR_IMAGE_IF_NO_CAPTION\<close>
  comes from the configuration and is a parameter.
\<close>

definition final_text_prompt :: "string \<Rightarrow> image_item list \<Rightarrow> string" where
  "final_text_prompt DEFAULT_PROMPT_FOR_IMAGE_IF_NO_CAPTION media_group_images_data =
     (let from_trigger =
            (case find (\<lambda>img. truthy (trigger_command_used_info img) \<or> is_reply_to_bot img)
                    media_group_images_data of
               None \<Rightarrow> None
             | Some img \<Rightarrow> caption_for_ai img);
          from_any =
            (if from_trigger = None then
               (case find (\<lambda>img. truthy (caption_for_ai img)) media_group_images_data of
                  None \<Rightarrow> None
                | Some img \<Rightarrow> caption_for_ai img)
             else from_trigger)
      in if \<not> truthy from_any then DEFAULT_PROMPT_FOR_IMAGE_IF_NO_CAPTION else the from_any)"

text \<open>
  \<open>context.bot_data\<close>: the key \<open>'media_groups'\<close>, when present, holds a dictionary from
  chat id to a dictionary from media group id to the list of its photos; dictionaries are
  association lists in insertion order. The keys \<open>notified_overflow_<chat>_<group>\<close> are
  the set of their (chat, group) pairs. The job queue is outside the model.
\<close>

record bot_data =
  media_groups :: "(int \<times> (string \<times> image_item list) list) list option"
  notified_overflow :: "(int \<times> string) set"

definition empty_bot_data :: bot_data where
  "empty_bot_data = \<lparr>media_groups = None, notified_overflow = {}\<rparr>"

definition group_items :: "bot_data \<Rightarrow> int \<Rightarrow> string \<Rightarrow> image_item list option" where
  "group_items bd chat_id media_group_id_str =
     (case media_groups bd of
        None \<Rightarrow> None
      | Some groups \<Rightarrow>
          (case map_of groups chat_id of
             None \<Rightarrow> None
           | Some chat \<Rightarrow> map_of chat media_group_id_str))"

text \<open>
  The media group branch of \<open>handle_photo_message\<close>, for a photo the bot responds to.
  \<open>MAX_IMAGE_INPUT\<close> comes from the configuration. The result is the new \<open>bot_data\<close> and
  the replies sent to the user (the overflow notice, at most once per group).
\<close>

datatype photo_reply = OverflowNotice int

definition add_to_media_group ::
  "int \<Rightarrow> int \<Rightarrow> string \<Rightarrow> image_item \<Rightarrow> bot_data \<Rightarrow> bot_data \<times> photo_reply list" where
  "add_to_media_group MAX_IMAGE_INPUT chat_id media_group_id_str item bd =
     (let groups = (case media_groups bd of None \<Rightarrow> [] | Some g \<Rightarrow> g);
          chat = (case map_of groups chat_id of None \<Rightarrow> [] | Some c \<Rightarrow> c);
          current_images_in_group =
            (case map_of chat media_group_id_str of None \<Rightarrow> [] | Some l \<Rightarrow> l);
          is_duplicate =
            list_ex (\<lambda>img. message_id img = message_id item) current_images_in_group;
          full = (int (length current_images_in_group) \<ge> MAX_IMAGE_INPUT);
          images = (if \<not> is_duplicate \<and> \<not> full then current_images_in_group @ [item]
                    else current_images_in_group);
          notify = (\<not> is_duplicate \<and> full
                    \<and> (chat_id, media_group_id_str) \<notin> notified_overflow bd)
      in (bd\<lparr>media_groups :=
               Some (AList.update chat_id (AList.update media_group_id_str images chat) groups),
             notified_overflow :=
               (if notify then insert (chat_id, media_group_id_str) (notified_overflow bd)
                else notified_overflow bd)\<rparr>,
          if notify then [OverflowNotice MAX_IMAGE_INPUT] else []))"

text \<open>A sequence of photo arrivals, each a chat id, a media group id and the photo.\<close>

fun feed :: "int \<Rightarrow> (int \<times> string \<times> image_item) list \<Rightarrow> bot_data \<Rightarrow> bot_data" where
  "feed MAX_IMAGE_INPUT [] bd = bd"
| "feed MAX_IMAGE_INPUT ((chat_id, media_group_id_str, item) # arrivals) bd =
     feed MAX_IMAGE_INPUT arrivals
       (fst (add_to_media_group MAX_IMAGE_INPUT chat_id media_group_id_str item bd))"

text \<open>
  The first part of \<open>process_media_group_callback\<close>: the group's list is popped, a chat
  dictionary and the \<open>'media_groups'\<close> key are popped when they become empty, and the
  overflow flag of the group is popped in any case.
\<close>

definition pop_media_group ::
  "int \<Rightarrow> string \<Rightarrow> bot_data \<Rightarrow> bot_data \<times> image_item list option" where
  "pop_media_group chat_id media_group_id_str bd =
     (let popped =
        (case media_groups bd of
           None \<Rightarrow> (bd, None)
         | Some groups \<Rightarrow>
            (case map_of groups chat_id of
               None \<Rightarrow> (bd, None)
             | Some chat \<Rightarrow>
                (case map_of chat media_group_id_str of
                   None \<Rightarrow> (bd, None)
                 | Some images \<Rightarrow>
                    (let chat1 = AList.delete media_group_id_str chat;
                         groups1 = (if chat1 = [] then AList.delete chat_id groups
                                    else AList.update chat_id chat1 groups)
                     in (bd\<lparr>media_groups := (if groups1 = [] then None else Some groups1)\<rparr>,
                         Some images)))))
      in (fst popped\<lparr>notified_overflow :=
                        notified_overflow (fst popped) - {(chat_id, media_group_id_str)}\<rparr>,
          snd popped))"

text \<open>
  The rest of the callback talks to three collaborators, which are parameters: \<open>fetch\<close>
  tells whether the download of a file succeeds, \<open>ai\<close> is
  \<open>generate_multimodal_response\<close> (its answer, or an exception), \<open>transport\<close> is
  \<open>send_message\<close> as in the Delivery Engine. A run records the calls made, the number of
  \<open>send_message\<close> calls, and whether an exception left the callback.
\<close>

datatype ai_outcome = AiReturned "string option" | AiRaised

datatype callback_event =
    ChatActionTyping
  | GetFile string
  | Generate string nat
  | SendMessage string "int option"
  | LongMessage string "int option" "py_error + delivery"

record callback_run =
  sends :: nat
  events :: "callback_event list"
  escaped :: bool

definition quiet :: callback_run where
  "quiet = \<lparr>sends = 0, events = [], escaped = False\<rparr>"

definition album_failed_message :: string where
  "album_failed_message =
     ''Maaf, saya gagal memproses gambar-gambar yang Anda kirim dalam album ini.''"

definition no_ai_response_message :: string where
  "no_ai_response_message =
     ''Maaf, saya tidak bisa memproses gambar-gambar ini saat ini (tidak ada respons AI).''"

definition internal_error_message :: string where
  "internal_error_message = ''Terjadi kesalahan internal saat memproses album gambar Anda.''"

fun download_loop ::
  "(string \<Rightarrow> bool) \<Rightarrow> int \<Rightarrow> image_item list \<Rightarrow> nat \<Rightarrow> callback_event list \<Rightarrow>
   nat \<times> callback_event list" where
  "download_loop fetch MAX_IMAGE_INPUT [] images_processed_count evs =
     (images_processed_count, evs)"
| "download_loop fetch MAX_IMAGE_INPUT (img_detail # rest) images_processed_count evs =
     (if int images_processed_count \<ge> MAX_IMAGE_INPUT then (images_processed_count, evs)
      else download_loop fetch MAX_IMAGE_INPUT rest
             (if fetch (file_id img_detail) then images_processed_count + 1
              else images_processed_count)
             (evs @ [GetFile (file_id img_detail)]))"

text \<open>
  \<open>try: send_message(\<dots>, reply_to_message_id=\<dots>) except \<dots>: send_message(\<dots>)\<close>. The
  clause is \<open>except Exception\<close> where no photo could be downloaded and
  \<open>except BadRequest\<close> elsewhere. The flag returned tells whether the message went out.
\<close>

definition caught :: "bool \<Rightarrow> send_outcome \<Rightarrow> bool" where
  "caught any_exception outcome =
     (outcome \<noteq> Sent \<and> (any_exception \<or> (case outcome of BadRequest m \<Rightarrow> True | _ \<Rightarrow> False)))"

definition reply_with_fallback ::
  "(nat \<Rightarrow> send_outcome) \<Rightarrow> bool \<Rightarrow> string \<Rightarrow> int option \<Rightarrow> callback_run \<Rightarrow>
   callback_run \<times> bool" where
  "reply_with_fallback transport any_exception msg reply_to run =
     (let run1 = run\<lparr>sends := sends run + 1,
                     events := events run @ [SendMessage msg reply_to]\<rparr>
      in if transport (sends run) = Sent then (run1, True)
         else if caught any_exception (transport (sends run)) then
           (run1\<lparr>sends := sends run1 + 1, events := events run1 @ [SendMessage msg None]\<rparr>,
            transport (sends run1) = Sent)
         else (run1, False))"

definition internal_error ::
  "(nat \<Rightarrow> send_outcome) \<Rightarrow> int option \<Rightarrow> callback_run \<Rightarrow> callback_run" where
  "internal_error transport reply_to run =
     (case reply_with_fallback transport False internal_error_message reply_to run of
        (run1, ok) \<Rightarrow> run1\<lparr>escaped := \<not> ok\<rparr>)"

definition process_images ::
  "(string \<Rightarrow> bool) \<Rightarrow> (string \<Rightarrow> nat \<Rightarrow> ai_outcome) \<Rightarrow> (nat \<Rightarrow> send_outcome) \<Rightarrow>
   int \<Rightarrow> string \<Rightarrow> int \<Rightarrow> image_item list \<Rightarrow> callback_run" where
  "process_images fetch ai transport MAX_IMAGE_INPUT DEFAULT_PROMPT TELEGRAM_MAX_MESSAGE_LENGTH
     media_group_images_data =
     (let prompt = final_text_prompt DEFAULT_PROMPT media_group_images_data;
          first_message_id_in_group =
            (case media_group_images_data of [] \<Rightarrow> None | img # _ \<Rightarrow> Some (message_id img));
          (images_processed_count, downloads) =
            download_loop fetch MAX_IMAGE_INPUT media_group_images_data 0 [];
          run1 = \<lparr>sends = 0, events = ChatActionTyping # downloads, escaped = False\<rparr>
      in if images_processed_count = 0 then
           (case reply_with_fallback transport True album_failed_message
                   first_message_id_in_group run1 of
              (run2, ok) \<Rightarrow> run2\<lparr>escaped := \<not> ok\<rparr>)
         else
           let run2 = run1\<lparr>events := events run1 @ [Generate prompt images_processed_count]\<rparr>
           in case ai prompt images_processed_count of
                AiRaised \<Rightarrow> internal_error transport first_message_id_in_group run2
              | AiReturned gemini_reply_raw \<Rightarrow>
                  if truthy gemini_reply_raw then
                    (let raw = the gemini_reply_raw;
                         markdown = ensure_valid_markdown raw;
                         sent = send_long_message (\<lambda>k. transport (sends run2 + k))
                                  TELEGRAM_MAX_MESSAGE_LENGTH markdown first_message_id_in_group
                                  (Some MARKDOWN) (Some raw);
                         run3 = run2\<lparr>sends := sends run2 + (case sent of Inl e \<Rightarrow> 0 | Inr d \<Rightarrow> calls d),
                                     events := events run2 @
                                       [LongMessage markdown first_message_id_in_group sent]\<rparr>
                     in case sent of
                          Inl e \<Rightarrow> internal_error transport first_message_id_in_group run3
                        | Inr d \<Rightarrow> run3)
                  else
                    (case reply_with_fallback transport False no_ai_response_message
                            first_message_id_in_group run2 of
                       (run3, ok) \<Rightarrow>
                         if ok then run3
                         else internal_error transport first_message_id_in_group run3))"

text \<open>
  \<open>process_media_group_callback\<close>: nothing follows the pop when there is no list or an
  empty one.
\<close>

definition process_media_group_callback ::
  "(string \<Rightarrow> bool) \<Rightarrow> (string \<Rightarrow> nat \<Rightarrow> ai_outcome) \<Rightarrow> (nat \<Rightarrow> send_outcome) \<Rightarrow>
   int \<Rightarrow> string \<Rightarrow> int \<Rightarrow> int \<Rightarrow> string \<Rightarrow> bot_data \<Rightarrow> bot_data \<times> callback_run" where
  "process_media_group_callback fetch ai transport MAX_IMAGE_INPUT DEFAULT_PROMPT
     TELEGRAM_MAX_MESSAGE_LENGTH chat_id media_group_id_str bd =
     (case pop_media_group chat_id media_group_id_str bd of
        (bd1, media_group_images_data) \<Rightarrow>
          (case media_group_images_data of
             None \<Rightarrow> (bd1, quiet)
           | Some images \<Rightarrow>
               if images = [] then (bd1, quiet)
               else (bd1, process_images fetch ai transport MAX_IMAGE_INPUT DEFAULT_PROMPT
                            TELEGRAM_MAX_MESSAGE_LENGTH images)))"


text \<open>No media group holds two photos with the same message id.\<close>

definition distinct_ids :: "bot_data \<Rightarrow> bool" where
  "distinct_ids bd =
     (\<forall>chat mg items. group_items bd chat mg = Some items \<longrightarrow> distinct (map message_id items))"

text \<open>Two photos for the examples.\<close>

definition photo_1 :: image_item where
  "photo_1 = \<lparr>file_id = ''A'', caption_for_ai = None, original_caption = None,
        message_id = 1, is_reply_to_bot = False, trigger_command_used_info = None\<rparr>"

definition photo_2 :: image_item where
  "photo_2 = \<lparr>file_id = ''B'', caption_for_ai = Some ''describe these'',
        original_caption = Some ''/ai describe these'',
        message_id = 2, is_reply_to_bot = False, trigger_command_used_info = Some ''/ai''\<rparr>"


section \<open>Properties of the Markup Balancer\<close>

lemma balance_loop_result:
  "concat (snd (balance_loop stack result s)) = concat result @ s"
proof (induction stack result s rule: balance_loop.induct)
  case (1 stack result)
  show ?case by simp
next
  case (2 stack result c cs)
  show ?case
  proof (cases "take 3 (c # cs) = multi_char_symbol")
    case True
    have "multi_char_symbol @ drop 3 (c # cs) = c # cs"
      using True by (metis append_take_drop_id)
    with 2(1) [OF True] True show ?thesis
      by (simp del: take_Suc_Cons drop_Suc_Cons)
  next
    case False
    with 2(2,3) show ?thesis
      by (cases "c \<in> single_char_symbols") simp_all
  qed
qed

lemma balance_loop_stack:
  "set stack \<subseteq> delimiter_tokens \<Longrightarrow>
   set (fst (balance_loop stack result s)) \<subseteq> delimiter_tokens"
proof (induction stack result s rule: balance_loop.induct)
  case (1 stack result)
  then show ?case by simp
next
  case (2 stack result c cs)
  have popped: "set (butlast stack) \<subseteq> delimiter_tokens"
    using 2(4) by (meson in_set_butlastD subsetD subsetI)
  have multi: "multi_char_symbol \<in> delimiter_tokens"
    by (simp add: multi_char_symbol_def delimiter_tokens_def)
  have single: "c \<in> single_char_symbols \<Longrightarrow> [c] \<in> delimiter_tokens"
    by (auto simp: single_char_symbols_def delimiter_tokens_def)
  show ?case
  proof (cases "take 3 (c # cs) = multi_char_symbol")
    case True
    with 2(1) [OF True] 2(4) popped multi show ?thesis
      by (simp del: take_Suc_Cons drop_Suc_Cons)
  next
    case False
    with 2(2,3) 2(4) popped single show ?thesis
      by (cases "c \<in> single_char_symbols") simp_all
  qed
qed

lemma ensure_valid_markdown_append:
  "ensure_valid_markdown t = t @ concat (rev (unclosed t))"
  using balance_loop_result [of "[]" "[]" t]
  by (cases "balance_loop [] [] t"; cases t)
     (simp_all add: ensure_valid_markdown_def unclosed_def)

text \<open>
  Claim C10. For every input string \<open>t\<close> the output of \<open>ensure_valid_markdown\<close> is \<open>t\<close>
  followed by the delimiters left on the stack, in pop order: every entry of that suffix is
  one of the four delimiter tokens, the input is a prefix of the output, and the output is
  never shorter than the input.
\<close>

theorem ensure_valid_markdown_appends_closers:
  "ensure_valid_markdown t = t @ concat (rev (unclosed t))
   \<and> set (unclosed t) \<subseteq> delimiter_tokens
   \<and> prefix t (ensure_valid_markdown t)
   \<and> length t \<le> length (ensure_valid_markdown t)"
proof -
  have out: "ensure_valid_markdown t = t @ concat (rev (unclosed t))"
    by (rule ensure_valid_markdown_append)
  have toks: "set (unclosed t) \<subseteq> delimiter_tokens"
    unfolding unclosed_def by (rule balance_loop_stack) simp
  from out toks show ?thesis by simp
qed

theorem ensure_valid_markdown_appends_closers_witness:
  "ensure_valid_markdown ''*a `b'' = ''*a `b'' @ ''`*''
   \<and> unclosed ''*a `b'' = [''*'', ''`'']"
  using ensure_valid_markdown_appends_closers [of "''*a `b''"]
  by (simp add: unclosed_def single_char_symbols_def multi_char_symbol_def)

text \<open>
  Claim C4. The claim is that \<open>ensure_valid_markdown\<close> is idempotent. On the four
  characters backtick, space, backtick, backtick the scan ends with one backtick open and
  appends it; the three backticks that now end the text read as the code-fence token on the
  next run, which opens a fence and an inline span and appends both closers. The second run
  therefore differs from the first.
\<close>

theorem ensure_valid_markdown_not_idempotent:
  "ensure_valid_markdown ''` ``'' = ''` ```''
   \<and> ensure_valid_markdown (ensure_valid_markdown ''` ``'') = ''` ```````''
   \<and> ensure_valid_markdown (ensure_valid_markdown ''` ``'') \<noteq> ensure_valid_markdown ''` ``''"
  by (simp add: ensure_valid_markdown_def single_char_symbols_def multi_char_symbol_def)


text \<open>
  The merge of an appended backtick with backticks of the text is the only obstacle: on a
  text without a backtick a second run of the balancer changes nothing.
\<close>

lemma not_fence: "c \<noteq> CHR ''`'' \<Longrightarrow> take 3 (c # cs) \<noteq> multi_char_symbol"
  by (auto simp: multi_char_symbol_def)

lemma balance_loop_append:
  "CHR ''`'' \<notin> set s1 \<Longrightarrow>
   balance_loop stack result (s1 @ s2) =
   balance_loop (fst (balance_loop stack result s1)) (snd (balance_loop stack result s1)) s2"
proof (induction s1 arbitrary: stack result)
  case Nil
  show ?case by simp
next
  case (Cons c cs)
  then have c: "c \<noteq> CHR ''`''" and cs: "CHR ''`'' \<notin> set cs" by auto
  have 1: "take 3 (c # cs @ s2) \<noteq> multi_char_symbol" by (rule not_fence [OF c])
  have 2: "take 3 (c # cs) \<noteq> multi_char_symbol" by (rule not_fence [OF c])
  show ?case
    using 1 2 Cons.IH [OF cs] by (simp del: take_Suc_Cons)
qed

lemma balance_loop_single:
  assumes "c \<noteq> CHR ''`''"
  shows "balance_loop stack result (c # cs) =
    (if c \<in> single_char_symbols then
       balance_loop
         (if stack \<noteq> [] \<and> last stack = [c] then butlast stack else stack @ [[c]])
         (result @ [[c]]) cs
     else balance_loop stack (result @ [[c]]) cs)"
  using not_fence [OF assms, of cs] by (simp del: take_Suc_Cons)

lemma plain_stack_scan:
  "CHR ''`'' \<notin> set s \<Longrightarrow> plain_stack stack \<Longrightarrow> plain_stack (fst (balance_loop stack result s))"
proof (induction s arbitrary: stack result)
  case Nil
  then show ?case by simp
next
  case (Cons c cs)
  then have c: "c \<noteq> CHR ''`''" and cs: "CHR ''`'' \<notin> set cs" by auto
  show ?case
  proof (cases "c \<in> single_char_symbols")
    case False
    with Cons.IH [OF cs Cons.prems(2)] show ?thesis
      by (simp only: balance_loop_single [OF c] if_False)
  next
    case True
    let ?st = "if stack \<noteq> [] \<and> last stack = [c] then butlast stack else stack @ [[c]]"
    have "plain_stack (butlast stack)"
      using Cons.prems(2) by (auto simp: plain_stack_def dest: in_set_butlastD)
    moreover have "plain_stack (stack @ [[c]])"
      using Cons.prems(2) c True by (auto simp: plain_stack_def single_char_symbols_def)
    ultimately have "plain_stack ?st" by simp
    from Cons.IH [OF cs this] True show ?thesis
      by (simp only: balance_loop_single [OF c] if_True)
  qed
qed

lemma plain_stack_closes:
  "plain_stack stack \<Longrightarrow> fst (balance_loop stack result (concat (rev stack))) = []"
proof (induction stack arbitrary: result rule: rev_induct)
  case Nil
  show ?case by simp
next
  case (snoc e stack)
  from snoc.prems obtain c where e: "e = [c]" and c: "c = CHR ''*'' \<or> c = CHR ''~''"
    and rest: "plain_stack stack"
    by (auto simp: plain_stack_def)
  have nb: "c \<noteq> CHR ''`''" using c by auto
  have s: "c \<in> single_char_symbols" using c by (auto simp: single_char_symbols_def)
  have "concat (rev (stack @ [e])) = c # concat (rev stack)" using e by simp
  then have "balance_loop (stack @ [e]) result (concat (rev (stack @ [e])))
     = balance_loop stack (result @ [[c]]) (concat (rev stack))"
    using e s by (simp add: balance_loop_single [OF nb] del: balance_loop.simps)
  with snoc.IH [OF rest] show ?case by simp
qed

lemma ensure_valid_markdown_idempotent_without_backtick:
  assumes "CHR ''`'' \<notin> set t"
  shows "ensure_valid_markdown (ensure_valid_markdown t) = ensure_valid_markdown t"
proof -
  have ps: "plain_stack (unclosed t)"
    unfolding unclosed_def by (rule plain_stack_scan [OF assms]) (simp add: plain_stack_def)
  have "unclosed (t @ concat (rev (unclosed t))) =
        fst (balance_loop (unclosed t) (snd (balance_loop [] [] t)) (concat (rev (unclosed t))))"
    by (simp add: unclosed_def balance_loop_append [OF assms])
  also have "\<dots> = []" by (rule plain_stack_closes [OF ps])
  finally have "unclosed (ensure_valid_markdown t) = []"
    by (simp add: ensure_valid_markdown_append [of t])
  then show ?thesis
    using ensure_valid_markdown_append [of "ensure_valid_markdown t"] by simp
qed


section \<open>Properties of the Chunk Splitter\<close>

lemma length_strip_le: "length (strip s) \<le> length s"
proof -
  have "length (strip s) \<le> length (dropWhile isspace s)"
    unfolding strip_def using length_dropWhile_le [of isspace "rev (dropWhile isspace s)"] by simp
  also have "\<dots> \<le> length s" by (rule length_dropWhile_le)
  finally show ?thesis .
qed

lemma length_strip_trailing:
  assumes "isspace c"
  shows "length (strip (s @ [c])) \<le> length s"
proof (cases "dropWhile isspace (s @ [c]) = []")
  case True
  then show ?thesis by (simp add: strip_def)
next
  case False
  define d where "d = dropWhile isspace (s @ [c])"
  have "\<exists>x\<in>set s. \<not> isspace x"
    using False assms by (auto simp: dropWhile_eq_Nil_conv)
  then have "d = dropWhile isspace s @ [c]"
    unfolding d_def by (auto simp: dropWhile_append1)
  then have "length (dropWhile isspace (rev d)) \<le> length (dropWhile isspace s)"
    using assms length_dropWhile_le [of isspace "rev (dropWhile isspace s)"] by simp
  also have "\<dots> \<le> length s" by (rule length_dropWhile_le)
  finally show ?thesis by (simp add: strip_def d_def)
qed

lemma isspace_newline: "isspace newline"
  by (simp add: isspace_def newline_def)

lemma line_slices_length:
  "c \<in> set (line_slices limit line) \<Longrightarrow> int (length c) \<le> limit"
  by (auto simp: line_slices_def split: if_splits)

lemma pack_lines_bound:
  assumes "0 < limit"
  shows "(\<forall>c\<in>set chunks. int (length c) \<le> limit) \<Longrightarrow> int (length (strip cur)) \<le> limit \<Longrightarrow>
    \<exists>chunks' cur'. pack_lines limit lines chunks cur = Inr (chunks', cur')
      \<and> (\<forall>c\<in>set chunks'. int (length c) \<le> limit) \<and> int (length (strip cur')) \<le> limit"
proof (induction lines arbitrary: chunks cur)
  case Nil
  then show ?case by simp
next
  case (Cons line rest)
  have empty: "int (length (strip [])) \<le> limit"
    using assms by (simp add: strip_def)
  show ?case
  proof (cases "int (length line) > limit")
    case True
    let ?chunks = "(if cur \<noteq> [] then chunks @ [strip cur] else chunks) @ line_slices limit line"
    have "\<forall>c\<in>set ?chunks. int (length c) \<le> limit"
      using Cons.prems line_slices_length by auto
    from Cons.IH [OF this empty] True assms show ?thesis by simp
  next
    case short: False
    let ?nl = "if rest \<noteq> [] then [newline] else []"
    show ?thesis
    proof (cases "int (length cur) + int (length line) + 1 \<le> limit")
      case True
      have "length (strip (cur @ line @ ?nl)) \<le> length (cur @ line @ ?nl)"
        by (rule length_strip_le)
      with True have "int (length (strip (cur @ line @ ?nl))) \<le> limit" by (simp split: if_splits)
      from Cons.IH [OF Cons.prems(1) this] short True show ?thesis by simp
    next
      case False
      have a: "\<forall>c\<in>set (chunks @ [strip cur]). int (length c) \<le> limit"
        using Cons.prems by simp
      have "length (strip (line @ ?nl)) \<le> length line"
        using length_strip_trailing [OF isspace_newline, of line] length_strip_le [of line]
        by simp
      with short have "int (length (strip (line @ ?nl))) \<le> limit" by linarith
      from Cons.IH [OF a this] short False show ?thesis by simp
    qed
  qed
qed

lemma split_chunks_bound:
  assumes "0 < limit"
  shows "\<exists>chunks. split_chunks limit s = Inr chunks \<and> (\<forall>c\<in>set chunks. int (length c) \<le> limit)"
proof -
  have e: "int (length (strip [])) \<le> limit" using assms by (simp add: strip_def)
  from pack_lines_bound [OF assms _ e, of "[]" "split_nl s"]
  obtain chunks cur where "pack_lines limit (split_nl s) [] [] = Inr (chunks, cur)"
    and "\<forall>c\<in>set chunks. int (length c) \<le> limit" and "int (length (strip cur)) \<le> limit"
    by auto
  then show ?thesis by (simp add: split_chunks_def)
qed


section \<open>Properties of the Delivery Engine\<close>

lemma attempt_loop_trace_inv:
  assumes "list_all P (trace st)"
    and "P (SendChunk i body (if i = 0 then r else None) mode)"
    and "P (SendChunk i c (if i = 0 then r else None) None)"
    and "\<And>s. P (SendNotice s)" and "\<And>d. P (Sleep d)"
  shows "list_all P (trace (attempt_loop tr i c r atts body mode st))"
  using assms(1,2)
proof (induction atts arbitrary: body mode st)
  case Nil
  then show ?case by simp
next
  case (Cons a atts)
  let ?st1 = "call_send (SendChunk i body (if i = 0 then r else None) mode) st"
  have st1: "list_all P (trace ?st1)"
    using Cons.prems by (simp add: call_send_def)
  show ?case
  proof (cases "tr (calls st)")
    case Sent
    with st1 show ?thesis by simp
  next
    case (RetryAfter d)
    have "list_all P (trace (log_event (Sleep d) ?st1))"
      using st1 assms(5) by (simp add: log_event_def)
    from Cons.IH [OF this Cons.prems(2)] RetryAfter show ?thesis by simp
  next
    case (BadRequest msg)
    show ?thesis
    proof (cases "is_parse_failure msg \<and> mode = Some MARKDOWN \<and> a < max_retries_markdown_fail")
      case True
      from Cons.IH [OF st1 assms(3)] BadRequest True show ?thesis by simp
    next
      case False
      with BadRequest st1 assms(4) show ?thesis by (auto simp: call_send_def Let_def)
    qed
  next
    case TelegramError
    with st1 assms(4) show ?thesis by (auto simp: call_send_def Let_def)
  next
    case OtherException
    with st1 assms(4) show ?thesis by (auto simp: call_send_def Let_def)
  qed
qed

lemma chunk_loop_trace_inv:
  assumes "\<And>s. P (SendNotice s)" and "\<And>d. P (Sleep d)" and "P Pace"
    and "\<And>i c m. (i, c) \<in> set ics \<Longrightarrow> c \<noteq> [] \<Longrightarrow>
           P (SendChunk i c (if i = 0 then r else None) m)
         \<and> P (SendChunk i (ensure_valid_markdown c) (if i = 0 then r else None) m)"
  shows "list_all P (trace st) \<Longrightarrow> list_all P (trace (chunk_loop tr r pm n ics st))"
  using assms(4)
proof (induction ics arbitrary: st)
  case Nil
  then show ?case by simp
next
  case (Cons ic ics)
  obtain i c where ic: "ic = (i, c)" by (cases ic)
  have rest: "\<And>i c m. (i, c) \<in> set ics \<Longrightarrow> c \<noteq> [] \<Longrightarrow>
           P (SendChunk i c (if i = 0 then r else None) m)
         \<and> P (SendChunk i (ensure_valid_markdown c) (if i = 0 then r else None) m)"
    using Cons.prems(2) by simp
  show ?case
  proof (cases "c = []")
    case True
    with Cons.IH [OF Cons.prems(1) rest] ic show ?thesis by simp
  next
    case False
    have here: "\<And>m. P (SendChunk i c (if i = 0 then r else None) m)"
      "\<And>m. P (SendChunk i (ensure_valid_markdown c) (if i = 0 then r else None) m)"
      using Cons.prems(2) [of i c] ic False by simp_all
    have pc: "fst (prepare_chunk pm c) = c \<or> fst (prepare_chunk pm c) = ensure_valid_markdown c"
      by (simp add: prepare_chunk_def Let_def)
    have "list_all P (trace (attempt_loop tr i c r [0 ..< max_retries_markdown_fail + 1]
             (fst (prepare_chunk pm c)) (snd (prepare_chunk pm c)) st))"
      using pc here attempt_loop_trace_inv [OF Cons.prems(1) _ _ assms(1) assms(2)]
      by metis
    then have "list_all P (trace (pause_after n i (attempt_loop tr i c r [0 ..< max_retries_markdown_fail + 1]
             (fst (prepare_chunk pm c)) (snd (prepare_chunk pm c)) st)))"
      using assms(3) by (simp add: pause_after_def log_event_def)
    from Cons.IH [OF this rest] ic False show ?thesis by simp
  qed
qed

lemma chunk_loop_nonempty_send:
  "list_all nonempty_send (trace (chunk_loop tr r pm n ics idle))"
proof (rule chunk_loop_trace_inv)
  show "list_all nonempty_send (trace idle)" by (simp add: idle_def)
next
  fix i and c :: string and m assume "c \<noteq> []"
  then show "nonempty_send (SendChunk i c (if i = 0 then r else None) m)
     \<and> nonempty_send (SendChunk i (ensure_valid_markdown c) (if i = 0 then r else None) m)"
    by (simp add: nonempty_send_def ensure_valid_markdown_append)
qed (simp_all add: nonempty_send_def)

lemma send_long_message_cases:
  assumes "split_chunks (M - 20) = (\<lambda>s. Inr (f s))"
  shows "\<exists>s pm'. send_long_message tr M t r pm orig = Inr idle \<or> 
     send_long_message tr M t r pm orig = Inr (chunk_loop tr r pm' (length (f s)) (zip [0 ..< length (f s)] (f s)) idle)"
  by (auto simp: send_long_message_def Let_def assms idle_def)

lemma strip_empty_iff: "strip s = [] \<longleftrightarrow> (\<forall>c\<in>set s. isspace c)"
proof (cases "dropWhile isspace s = []")
  case True
  have "\<forall>c\<in>set s. isspace c" using True by (simp add: dropWhile_eq_Nil_conv)
  then show ?thesis unfolding strip_def True by simp
next
  case False
  then have "\<not> isspace (hd (dropWhile isspace s))" by (rule hd_dropWhile)
  moreover have "hd (dropWhile isspace s) \<in> set (dropWhile isspace s)" using False by simp
  ultimately have "dropWhile isspace (rev (dropWhile isspace s)) \<noteq> []"
    by (auto simp: dropWhile_eq_Nil_conv)
  with False show ?thesis by (auto simp: strip_def dropWhile_eq_Nil_conv)
qed

lemma prepare_chunk_markdown:
  "prepare_chunk (Some MARKDOWN) c = (ensure_valid_markdown c, Some MARKDOWN)"
proof -
  have "strip (ensure_valid_markdown c) = [] \<Longrightarrow> strip c = []"
    by (subst (asm) ensure_valid_markdown_append) (simp add: strip_empty_iff)
  then show ?thesis by (auto simp: prepare_chunk_def Let_def)
qed

lemma char_lower_needle: "map char_lower cant_parse_entities = cant_parse_entities"
  by (simp add: cant_parse_entities_def char_lower_def)

lemma is_parse_failure_needle: "is_parse_failure cant_parse_entities"
  by (simp add: is_parse_failure_def char_lower_needle)

lemma attempts_unfold: "[0 ..< max_retries_markdown_fail + 1] = [0, 1]"
  by (simp add: max_retries_markdown_fail_def)





lemma split_hi: "split_chunks 4076 ''*hi'' = Inr [''*hi'']"
  by (simp add: split_chunks_def strip_def isspace_def newline_def line_slices_def)


lemma chunk_loop_reply_only_first:
  "list_all (reply_only_first r) (trace (chunk_loop tr r pm n ics idle))"
proof (rule chunk_loop_trace_inv)
  show "list_all (reply_only_first r) (trace idle)" by (simp add: idle_def)
qed (simp_all add: reply_only_first_def)

lemma send_long_message_reply_only_first:
  "send_long_message tr M t r pm orig = Inr d \<Longrightarrow> list_all (reply_only_first r) (trace d)"
  using chunk_loop_reply_only_first [of r tr]
  by (auto simp: send_long_message_def Let_def idle_def split: sum.splits if_splits)

lemma split_nl_single: "newline \<notin> set s \<Longrightarrow> split_nl s = [s]"
  by (induction s) auto

lemma split_nl_append:
  "newline \<notin> set xs \<Longrightarrow> split_nl (xs @ newline # ys) = xs # split_nl ys"
  by (induction xs) auto

lemma split_9000:
  assumes "length T = 9000" and "newline \<notin> set T"
  shows "split_chunks 4076 T = Inr [take 4076 T, take 4076 (drop 4076 T), drop 8152 T]"
proof -
  have "[0 ..< (9000 + 4076 - 1) div 4076] = [0, 1, 2::nat]"
    by (simp add: upt_rec)
  then have "line_slices 4076 T = [take 4076 T, take 4076 (drop 4076 T), drop 8152 T]"
    using assms(1) by (simp add: line_slices_def)
  then show ?thesis
    using assms by (simp add: split_chunks_def split_nl_single strip_def)
qed


lemma balance_loop_plain:
  "set s \<inter> single_char_symbols = {} \<Longrightarrow>
   balance_loop stack result s = (stack, result @ map (\<lambda>c. [c]) s)"
proof (induction stack result s rule: balance_loop.induct)
  case (1 stack result)
  show ?case by simp
next
  case (2 stack result c cs)
  have c: "c \<notin> single_char_symbols" and cs: "set cs \<inter> single_char_symbols = {}"
    using 2(4) by auto
  have "take 3 (c # cs) \<noteq> multi_char_symbol"
    using c by (auto simp: multi_char_symbol_def single_char_symbols_def)
  with 2(3) c cs show ?case by simp
qed

lemma ensure_valid_markdown_plain:
  "set s \<inter> single_char_symbols = {} \<Longrightarrow> ensure_valid_markdown s = s"
  by (simp add: ensure_valid_markdown_def balance_loop_plain)

lemma evm_replicate_a: "ensure_valid_markdown (replicate n (CHR ''a'')) = replicate n (CHR ''a'')"
  by (rule ensure_valid_markdown_plain) (auto simp: single_char_symbols_def)


text \<open>
  Claim C2, as the claim states it, fails: the splitter appends \<open>current_chunk.strip()\<close>
  without testing it when a line does not fit (or is longer than the limit), so a first
  line of exactly \<open>limit\<close> characters puts an empty chunk in front.
\<close>

theorem split_chunks_emits_empty_chunk:
  "split_chunks 3 (''aaa'' @ [newline] @ ''b'') = Inr [[], ''aaa'', ''b'']"
  by (simp add: split_chunks_def strip_def isspace_def newline_def line_slices_def)

text \<open>
  Claim C2, amended. For every text and every limit \<open>L > 0\<close> the split succeeds and every
  chunk has length at most \<open>L\<close>; and in a delivery with that limit every chunk text that is
  sent is non-empty, because the send loop skips the empty chunks.
\<close>

theorem split_chunks_bounded_sent_nonempty:
  assumes "0 < L"
  shows "(\<exists>chunks. split_chunks L T = Inr chunks \<and> (\<forall>c\<in>set chunks. int (length c) \<le> L))
       \<and> (\<exists>d. send_long_message tr (L + 20) T r pm orig = Inr d \<and> list_all nonempty_send (trace d))"
proof
  show "\<exists>chunks. split_chunks L T = Inr chunks \<and> (\<forall>c\<in>set chunks. int (length c) \<le> L)"
    by (rule split_chunks_bound [OF assms])
next
  have "\<exists>chunks. split_chunks L s = Inr chunks" for s
    using split_chunks_bound [OF assms, of s] by blast
  then obtain f where f: "\<And>s. split_chunks L s = Inr (f s)" by metis
  have "split_chunks (L + 20 - 20) = (\<lambda>s. Inr (f s))" using f by auto
  from send_long_message_cases [OF this, of tr T r pm orig]
  show "\<exists>d. send_long_message tr (L + 20) T r pm orig = Inr d \<and> list_all nonempty_send (trace d)"
    using chunk_loop_nonempty_send by (auto simp: idle_def)
qed


theorem split_chunks_bounded_sent_nonempty_witness:
  "(0::int) < 20
   \<and> (\<exists>chunks. split_chunks 20 ''aaaaaaaaaaaaaaaaaaaaaaaaa'' = Inr chunks
         \<and> list_all (\<lambda>c. int (length c) \<le> 20) chunks)"
  using split_chunks_bounded_sent_nonempty [of 20 "''aaaaaaaaaaaaaaaaaaaaaaaaa''"]
  by (simp add: list_all_iff)


text \<open>
  Claim C6. The claim is that a rate-limited chunk is retried once whatever attempts the
  chunk has used before. The two attempts of the loop are shared: here the first attempt is
  rejected as unparsable, the plain attempt is rate limited, and the engine sleeps the five
  seconds and leaves the chunk unsent.
\<close>

theorem rate_limit_after_downgrade_not_retried:
  "send_long_message
     (\<lambda>k. if k = 0 then BadRequest cant_parse_entities else if k = 1 then RetryAfter 5 else Sent)
     4096 ''*hi'' None (Some MARKDOWN) None =
   Inr \<lparr>calls = 2,
        trace = [SendChunk 0 ''*hi*'' None (Some MARKDOWN),
                 SendChunk 0 ''*hi'' None None,
                 Sleep 5]\<rparr>"
  by (simp add: send_long_message_def split_hi idle_def prepare_chunk_markdown 
        attempts_unfold call_send_def log_event_def pause_after_def is_parse_failure_needle
        max_retries_markdown_fail_def Let_def
        ensure_valid_markdown_def single_char_symbols_def multi_char_symbol_def)


section \<open>Properties of the Submission Aggregator\<close>

lemma group_items_add:
  "group_items (fst (add_to_media_group M chat mg item bd)) chat' mg' =
     (if chat' = chat \<and> mg' = mg then
        Some (let cur = (case group_items bd chat mg of None \<Rightarrow> [] | Some l \<Rightarrow> l)
              in if \<not> list_ex (\<lambda>img. message_id img = message_id item) cur
                    \<and> \<not> int (length cur) \<ge> M
                 then cur @ [item] else cur)
      else group_items bd chat' mg')"
  by (auto simp: add_to_media_group_def group_items_def Let_def update_conv'
           split: option.splits)

lemma distinct_ids_add:
  assumes "distinct_ids bd"
  shows "distinct_ids (fst (add_to_media_group M chat mg item bd))"
  unfolding distinct_ids_def
proof (intro allI impI)
  fix chat' mg' items
  assume a: "group_items (fst (add_to_media_group M chat mg item bd)) chat' mg' = Some items"
  show "distinct (map message_id items)"
  proof (cases "chat' = chat \<and> mg' = mg")
    case False
    with a assms show ?thesis by (auto simp: group_items_add distinct_ids_def)
  next
    case True
    define cur where "cur = (case group_items bd chat mg of None \<Rightarrow> [] | Some l \<Rightarrow> l)"
    have d: "distinct (map message_id cur)"
      using assms by (auto simp: cur_def distinct_ids_def split: option.splits)
    from a True have "items = (if \<not> list_ex (\<lambda>img. message_id img = message_id item) cur
                    \<and> \<not> int (length cur) \<ge> M then cur @ [item] else cur)"
      by (auto simp: group_items_add cur_def Let_def)
    with d show ?thesis by (auto simp: list_ex_iff)
  qed
qed

lemma distinct_ids_feed:
  "distinct_ids bd \<Longrightarrow> distinct_ids (feed M arrivals bd)"
  by (induction arrivals arbitrary: bd) (auto simp: distinct_ids_add)

lemma distinct_ids_empty: "distinct_ids empty_bot_data"
  by (simp add: distinct_ids_def group_items_def empty_bot_data_def)

lemma group_items_pop:
  "group_items (fst (pop_media_group chat mg bd)) chat mg = None"
  by (auto simp: pop_media_group_def group_items_def Let_def update_conv' delete_conv'
           split: option.splits)

lemma pop_absent:
  "group_items bd chat mg = None \<Longrightarrow>
   snd (pop_media_group chat mg bd) = None
   \<and> media_groups (fst (pop_media_group chat mg bd)) = media_groups bd"
  by (auto simp: pop_media_group_def group_items_def Let_def split: option.splits)

lemma callback_fst:
  "fst (process_media_group_callback fetch ai tr M D TM chat mg bd) = fst (pop_media_group chat mg bd)"
  by (simp add: process_media_group_callback_def split: prod.splits option.splits)

lemma callback_absent:
  "group_items bd chat mg = None \<Longrightarrow>
   snd (process_media_group_callback fetch ai tr M D TM chat mg bd) = quiet"
  using pop_absent [of bd chat mg]
  by (auto simp: process_media_group_callback_def split: prod.splits option.splits)

text \<open>The example of the specification: of three photos only the second used a trigger
  command, and its caption is chosen.\<close>

lemma final_text_prompt_example:
  "final_text_prompt default_prompt
     [\<lparr>file_id = ''A'', caption_for_ai = None, original_caption = None,
        message_id = 1, is_reply_to_bot = False, trigger_command_used_info = None\<rparr>,
      \<lparr>file_id = ''B'', caption_for_ai = Some ''describe these'',
        original_caption = Some ''/ai describe these'',
        message_id = 2, is_reply_to_bot = False, trigger_command_used_info = Some ''/ai''\<rparr>,
      \<lparr>file_id = ''C'', caption_for_ai = None, original_caption = None,
        message_id = 3, is_reply_to_bot = False, trigger_command_used_info = None\<rparr>]
   = ''describe these''"
  by (simp add: final_text_prompt_def truthy_def)


text \<open>
  Claim C3. The claim is the precedence: caption of the triggered photo if non-empty, else
  the first non-empty caption of any photo, else the default. In the album below the first
  photo has the caption \<open>/ai\<close> (the trigger alone, so its \<open>caption_for_ai\<close> is the empty
  string) and the second has \<open>/ai describe\<close>. The first loop stops at the first photo with
  the empty string, which is not \<open>None\<close>, so the second loop is skipped and the default
  prompt is used although \<open>describe\<close> is there.
\<close>

theorem final_text_prompt_skips_other_captions:
  "final_text_prompt default_prompt
     [\<lparr>file_id = ''A'', caption_for_ai = Some '''', original_caption = Some ''/ai'',
        message_id = 1, is_reply_to_bot = False, trigger_command_used_info = Some ''/ai''\<rparr>,
      \<lparr>file_id = ''B'', caption_for_ai = Some ''describe'',
        original_caption = Some ''/ai describe'',
        message_id = 2, is_reply_to_bot = False, trigger_command_used_info = Some ''/ai''\<rparr>]
   = default_prompt"
  by (simp add: final_text_prompt_def truthy_def)


text \<open>
  Claim C7. After any sequence of photo arrivals, starting from an empty \<open>bot_data\<close>, no
  media group holds two photos with the same message id; and a photo whose message id is
  already in its group leaves the group's list as it was and produces no reply.
\<close>

theorem add_item_drops_duplicates:
  "(\<forall>chat mg items. group_items (feed M arrivals empty_bot_data) chat mg = Some items
       \<longrightarrow> distinct (map message_id items))
   \<and> (group_items bd chat_id mg_id = Some current \<and> message_id item \<in> set (map message_id current)
       \<longrightarrow> group_items (fst (add_to_media_group M chat_id mg_id item bd)) chat_id mg_id = Some current
         \<and> snd (add_to_media_group M chat_id mg_id item bd) = [])"
proof (intro conjI)
  show "\<forall>chat mg items. group_items (feed M arrivals empty_bot_data) chat mg = Some items
       \<longrightarrow> distinct (map message_id items)"
    using distinct_ids_feed [OF distinct_ids_empty, of M arrivals]
    by (simp add: distinct_ids_def)
next
  show "group_items bd chat_id mg_id = Some current \<and> message_id item \<in> set (map message_id current)
       \<longrightarrow> group_items (fst (add_to_media_group M chat_id mg_id item bd)) chat_id mg_id = Some current
         \<and> snd (add_to_media_group M chat_id mg_id item bd) = []"
  proof
    assume a: "group_items bd chat_id mg_id = Some current \<and> message_id item \<in> set (map message_id current)"
    then have dup: "list_ex (\<lambda>img. message_id img = message_id item) current"
      by (auto simp: list_ex_iff)
    have "group_items (fst (add_to_media_group M chat_id mg_id item bd)) chat_id mg_id = Some current"
      using a dup by (simp add: group_items_add)
    moreover have "snd (add_to_media_group M chat_id mg_id item bd) = []"
      using a dup
      by (auto simp: add_to_media_group_def group_items_def Let_def split: option.splits)
    ultimately show "group_items (fst (add_to_media_group M chat_id mg_id item bd)) chat_id mg_id = Some current
         \<and> snd (add_to_media_group M chat_id mg_id item bd) = []" by simp
  qed
qed


theorem add_item_drops_duplicates_witness:
  "group_items (feed 10 [(5, ''g'', photo_1), (5, ''g'', photo_2), (5, ''g'', photo_1)] empty_bot_data)
     5 ''g'' = Some [photo_1, photo_2]
   \<and> distinct (map message_id [photo_1, photo_2])
   \<and> add_to_media_group 10 5 ''g'' photo_1 (feed 10 [(5, ''g'', photo_1)] empty_bot_data)
       = (feed 10 [(5, ''g'', photo_1)] empty_bot_data, [])"
  using add_item_drops_duplicates [of 10
      "[(5, ''g'', photo_1), (5, ''g'', photo_2), (5, ''g'', photo_1)]"
      "feed 10 [(5, ''g'', photo_1)] empty_bot_data" 5 "''g''" "[photo_1]" photo_1]
  by (simp add: add_to_media_group_def group_items_def empty_bot_data_def Let_def
        photo_1_def photo_2_def)


text \<open>
  Claim C8. After the callback the group is not in the buffer; when the group was not in
  the buffer the callback calls nothing (no download, no AI call, no send) and leaves the
  buffer as it was; so a second callback for the same group, whatever the collaborators do,
  calls nothing. What follows the pop works on the popped list, not on \<open>bot_data\<close>.
\<close>

theorem flush_removes_once:
  "group_items (fst (process_media_group_callback fetch ai tr M D TM chat mg bd)) chat mg = None
   \<and> (group_items bd chat mg = None \<longrightarrow>
        snd (process_media_group_callback fetch ai tr M D TM chat mg bd) = quiet
        \<and> media_groups (fst (process_media_group_callback fetch ai tr M D TM chat mg bd))
            = media_groups bd)
   \<and> snd (process_media_group_callback fetch' ai' tr' M' D' TM' chat mg
            (fst (process_media_group_callback fetch ai tr M D TM chat mg bd))) = quiet"
  using callback_absent pop_absent
  by (simp add: callback_fst group_items_pop)


theorem flush_removes_once_witness:
  "group_items empty_bot_data 5 ''g'' = None
   \<and> process_media_group_callback (\<lambda>f. True) (\<lambda>p n. AiRaised) (\<lambda>k. Sent) 10 ''What is this?'' 4096
        5 ''g'' empty_bot_data = (empty_bot_data, quiet)
   \<and> fst (process_media_group_callback (\<lambda>f. True) (\<lambda>p n. AiRaised) (\<lambda>k. Sent) 10
        ''What is this?'' 4096 5 ''g'' (feed 10 [(5, ''g'', photo_1)] empty_bot_data)) = empty_bot_data"
  using flush_removes_once [of "\<lambda>f. True" "\<lambda>p n. AiRaised" "\<lambda>k. Sent" 10 "''What is this?''" 4096
      5 "''g''" empty_bot_data]
  by (simp add: process_media_group_callback_def pop_media_group_def add_to_media_group_def
        group_items_def empty_bot_data_def Let_def photo_1_def)


section \<open>The chunks give the text back\<close>

lemma strip_unique:
  assumes a: "\<forall>c\<in>set a. isspace c" and b: "\<forall>c\<in>set b. isspace c"
    and m: "m = [] \<or> (\<not> isspace (hd m) \<and> \<not> isspace (last m))"
  shows "strip (a @ m @ b) = m"
proof (cases "m = []")
  case True
  with a b show ?thesis by (auto simp: strip_empty_iff)
next
  case False
  then obtain x m' where xm: "m = x # m'" by (cases m) auto
  with m have x: "\<not> isspace x" by simp
  have "dropWhile isspace (a @ m @ b) = dropWhile isspace (m @ b)"
    using a by (intro dropWhile_append2) simp
  also have "\<dots> = m @ b" using x xm by simp
  finally have d: "dropWhile isspace (a @ m @ b) = m @ b" .
  have "rev m \<noteq> []" and "\<not> isspace (hd (rev m))"
    using False m by (simp_all add: hd_rev)
  then have r: "dropWhile isspace (rev m) = rev m" by (cases "rev m") auto
  have "dropWhile isspace (rev b @ rev m) = dropWhile isspace (rev m)"
    using b by (intro dropWhile_append2) simp
  then have "dropWhile isspace (rev (m @ b)) = dropWhile isspace (rev m)" by simp
  with r d show ?thesis by (simp add: strip_def)
qed

lemma strip_decomp:
  "\<exists>a b. s = a @ strip s @ b \<and> (\<forall>c\<in>set a. isspace c) \<and> (\<forall>c\<in>set b. isspace c)
     \<and> (strip s = [] \<or> (\<not> isspace (hd (strip s)) \<and> \<not> isspace (last (strip s))))"
proof -
  define d where "d = dropWhile isspace s"
  define b where "b = rev (takeWhile isspace (rev d))"
  have s: "s = takeWhile isspace s @ d" by (simp add: d_def)
  have "d = rev (takeWhile isspace (rev d) @ dropWhile isspace (rev d))"
    by (simp only: takeWhile_dropWhile_id rev_rev_ident)
  then have "d = rev (dropWhile isspace (rev d)) @ rev (takeWhile isspace (rev d))"
    by (simp only: rev_append)
  then have d: "d = strip s @ b" by (simp only: strip_def d_def b_def)
  have ta: "\<forall>c\<in>set (takeWhile isspace s). isspace c" by (auto dest: set_takeWhileD)
  have tb: "\<forall>c\<in>set b. isspace c" by (auto simp: b_def dest: set_takeWhileD)
  have core: "\<not> isspace (hd (strip s)) \<and> \<not> isspace (last (strip s))" if ne: "strip s \<noteq> []"
  proof
    have "d \<noteq> []" using d ne by auto
    then have "\<not> isspace (hd d)" unfolding d_def by (rule hd_dropWhile)
    then show "\<not> isspace (hd (strip s))" using d ne by (metis hd_append2)
    have "dropWhile isspace (rev d) \<noteq> []" using ne by (simp add: strip_def d_def)
    then have "\<not> isspace (hd (dropWhile isspace (rev d)))" by (rule hd_dropWhile)
    then show "\<not> isspace (last (strip s))"
      by (simp add: strip_def d_def last_rev)
  qed
  from s d ta tb core show ?thesis by (metis append.assoc)
qed

lemma strip_strip: "strip (strip s) = strip s"
  using strip_decomp [of s] strip_unique [of "[]" "[]" "strip s"] by auto

lemma strip_append_space:
  assumes "\<forall>c\<in>set w. isspace c"
  shows "strip (s @ w) = strip s"
proof -
  obtain a b where ab: "s = a @ strip s @ b" "\<forall>c\<in>set a. isspace c" "\<forall>c\<in>set b. isspace c"
     "strip s = [] \<or> (\<not> isspace (hd (strip s)) \<and> \<not> isspace (last (strip s)))"
    using strip_decomp [of s] by blast
  have "strip (a @ strip s @ (b @ w)) = strip s"
    using ab(2,3,4) assms by (intro strip_unique) auto
  moreover have "a @ strip s @ (b @ w) = s @ w" using ab(1) by simp
  ultimately show ?thesis by simp
qed

lemma split_nl_nonempty: "split_nl s \<noteq> []"
  by (induction s) (auto split: list.splits)

lemma unsplit_split_nl: "unsplit (split_nl s) = s"
proof (induction s)
  case Nil
  show ?case by simp
next
  case (Cons c cs)
  show ?case
  proof (cases "c = newline")
    case True
    with Cons split_nl_nonempty [of cs] show ?thesis
      by (cases "split_nl cs") auto
  next
    case False
    with Cons split_nl_nonempty [of cs] show ?thesis
      by (cases "split_nl cs"; cases "tl (split_nl cs)") auto
  qed
qed

lemma unsplit_Cons: "unsplit (l # ls) = l @ (if ls \<noteq> [] then [newline] else []) @ unsplit ls"
  by (cases ls) auto

lemma concat_slices_take:
  "concat (map (\<lambda>j. take n (drop (j * n) line)) [0 ..< k]) = take (k * n) line"
proof (induction k)
  case 0
  show ?case by simp
next
  case (Suc k)
  have "concat (map (\<lambda>j. take n (drop (j * n) line)) [0 ..< Suc k])
      = take (k * n) line @ take n (drop (k * n) line)"
    using Suc by simp
  also have "\<dots> = take (k * n + n) line" by (rule take_add [symmetric])
  finally show ?case by (simp add: add.commute)
qed

lemma concat_line_slices:
  assumes "0 < limit"
  shows "concat (line_slices limit line) = line"
proof -
  define n where "n = nat limit"
  have n: "0 < n" using assms by (simp add: n_def)
  have "length line \<le> ((length line + n - 1) div n) * n"
  proof -
    have "(length line + n - 1) mod n < n" using n by simp
    moreover have "length line + n - 1 = ((length line + n - 1) div n) * n + (length line + n - 1) mod n"
      by simp
    ultimately show ?thesis using n by linarith
  qed
  then show ?thesis
    using assms by (simp add: line_slices_def concat_slices_take n_def)
qed

lemma same_trimmed_strip: "same_trimmed cur (strip cur)"
  by (simp add: same_trimmed_def strip_strip)

lemma slices_pieces:
  assumes "0 < limit" and "line \<noteq> []" and w: "\<forall>c\<in>set w. isspace c"
  shows "\<exists>ps. list_all2 same_trimmed ps (line_slices limit line) \<and> concat ps = line @ w"
proof -
  let ?sl = "line_slices limit line"
  have c: "concat ?sl = line" by (rule concat_line_slices [OF assms(1)])
  with assms(2) have ne: "?sl \<noteq> []" by auto
  then have sl: "?sl = butlast ?sl @ [last ?sl]" by simp
  let ?ps = "butlast ?sl @ [last ?sl @ w]"
  have "list_all2 same_trimmed (butlast ?sl) (butlast ?sl)"
    by (simp add: list_all2_refl same_trimmed_def)
  moreover have "list_all2 same_trimmed [last ?sl @ w] [last ?sl]"
    using w by (simp add: same_trimmed_def strip_append_space)
  ultimately have "list_all2 same_trimmed ?ps (butlast ?sl @ [last ?sl])"
    by (rule list_all2_appendI)
  with sl have 1: "list_all2 same_trimmed ?ps ?sl" by simp
  have "concat ?ps = concat (butlast ?sl @ [last ?sl]) @ w" by simp
  with sl c have 2: "concat ?ps = line @ w" by simp
  from 1 2 show ?thesis by blast
qed

lemma pack_lines_pieces:
  assumes "0 < limit"
  shows "list_all2 same_trimmed pieces chunks \<Longrightarrow>
    \<exists>chunks' cur' pieces'. pack_lines limit lines chunks cur = Inr (chunks', cur')
      \<and> list_all2 same_trimmed pieces' chunks'
      \<and> concat pieces' @ cur' = concat pieces @ cur @ unsplit lines"
proof (induction lines arbitrary: pieces chunks cur)
  case Nil
  then show ?case by auto
next
  case (Cons line rest)
  let ?nl = "if rest \<noteq> [] then [newline] else []"
  have nl: "\<forall>c\<in>set ?nl. isspace c" by (simp add: isspace_newline)
  have u: "unsplit (line # rest) = line @ ?nl @ unsplit rest" by (rule unsplit_Cons)
  show ?case
  proof (cases "int (length line) > limit")
    case True
    with assms have "line \<noteq> []" by auto
    from slices_pieces [OF assms this nl]
    obtain ps where ps: "list_all2 same_trimmed ps (line_slices limit line)"
      "concat ps = line @ ?nl" by blast
    let ?chunks0 = "if cur \<noteq> [] then chunks @ [strip cur] else chunks"
    let ?pieces0 = "if cur \<noteq> [] then pieces @ [cur] else pieces"
    have "list_all2 same_trimmed ?pieces0 ?chunks0"
      using Cons.prems by (auto simp: same_trimmed_strip intro!: list_all2_appendI)
    then have "list_all2 same_trimmed (?pieces0 @ ps) (?chunks0 @ line_slices limit line)"
      using ps(1) by (rule list_all2_appendI)
    from Cons.IH [OF this, of "[]"]
    obtain chunks' cur' pieces' where r:
      "pack_lines limit rest (?chunks0 @ line_slices limit line) [] = Inr (chunks', cur')"
      "list_all2 same_trimmed pieces' chunks'"
      "concat pieces' @ cur' = concat (?pieces0 @ ps) @ [] @ unsplit rest" by blast
    have "concat (?pieces0 @ ps) @ [] @ unsplit rest = concat pieces @ cur @ unsplit (line # rest)"
      using ps(2) u by auto
    with r True assms show ?thesis by auto
  next
    case short: False
    show ?thesis
    proof (cases "int (length cur) + int (length line) + 1 \<le> limit")
      case True
      from Cons.IH [OF Cons.prems, of "cur @ line @ ?nl"]
      obtain chunks' cur' pieces' where r:
        "pack_lines limit rest chunks (cur @ line @ ?nl) = Inr (chunks', cur')"
        "list_all2 same_trimmed pieces' chunks'"
        "concat pieces' @ cur' = concat pieces @ (cur @ line @ ?nl) @ unsplit rest" by blast
      have "concat pieces @ (cur @ line @ ?nl) @ unsplit rest = concat pieces @ cur @ unsplit (line # rest)"
        using u by auto
      with r short True show ?thesis by auto
    next
      case False
      have "list_all2 same_trimmed (pieces @ [cur]) (chunks @ [strip cur])"
        using Cons.prems by (auto simp: same_trimmed_strip intro!: list_all2_appendI)
      from Cons.IH [OF this, of "line @ ?nl"]
      obtain chunks' cur' pieces' where r:
        "pack_lines limit rest (chunks @ [strip cur]) (line @ ?nl) = Inr (chunks', cur')"
        "list_all2 same_trimmed pieces' chunks'"
        "concat pieces' @ cur' = concat (pieces @ [cur]) @ (line @ ?nl) @ unsplit rest" by blast
      have "concat (pieces @ [cur]) @ (line @ ?nl) @ unsplit rest = concat pieces @ cur @ unsplit (line # rest)"
        using u by auto
      with r short False show ?thesis by auto
    qed
  qed
qed

lemma filter_strip: "filter (\<lambda>c. \<not> isspace c) (strip s) = filter (\<lambda>c. \<not> isspace c) s"
proof -
  obtain a b where ab: "s = a @ strip s @ b" "\<forall>c\<in>set a. isspace c" "\<forall>c\<in>set b. isspace c"
    using strip_decomp [of s] by blast
  have "filter (\<lambda>c. \<not> isspace c) (a @ strip s @ b) = filter (\<lambda>c. \<not> isspace c) (strip s)"
    using ab(2,3) by (simp add: filter_empty_conv)
  with ab(1) show ?thesis by simp
qed

lemma same_trimmed_content:
  "list_all2 same_trimmed ps cs \<Longrightarrow>
   filter (\<lambda>c. \<not> isspace c) (concat ps) = filter (\<lambda>c. \<not> isspace c) (concat cs)"
proof (induction rule: list_all2_induct)
  case Nil
  show ?case by simp
next
  case (Cons p ps c cs)
  have "filter (\<lambda>c. \<not> isspace c) p = filter (\<lambda>c. \<not> isspace c) c"
    using Cons.hyps(1) filter_strip [of p] filter_strip [of c] by (simp add: same_trimmed_def)
  with Cons.IH show ?case by simp
qed

text \<open>
  Claim C5. For every text \<open>T\<close> and limit \<open>L > 0\<close> the text is cut into consecutive
  pieces, one for each chunk in order and a remainder of white space at the end (the line
  breaks between lines are part of the pieces), such that each chunk equals its piece up to
  leading and trailing white space. In particular the chunks, concatenated in order, and
  the text have the same characters other than white space.
\<close>

theorem split_chunks_reconstructs:
  assumes "0 < L"
  shows "\<exists>chunks pieces tail. split_chunks L T = Inr chunks
           \<and> concat pieces @ tail = T
           \<and> list_all2 same_trimmed pieces chunks
           \<and> strip tail = []
           \<and> filter (\<lambda>c. \<not> isspace c) (concat chunks) = filter (\<lambda>c. \<not> isspace c) T"
proof -
  from pack_lines_pieces [OF assms, of "[]" "[]" "split_nl T" "[]"]
  obtain chunks cur pieces where r:
    "pack_lines L (split_nl T) [] [] = Inr (chunks, cur)"
    "list_all2 same_trimmed pieces chunks"
    "concat pieces @ cur = T"
    by (auto simp: unsplit_split_nl)
  have content: "filter (\<lambda>c. \<not> isspace c) (concat cs) = filter (\<lambda>c. \<not> isspace c) T"
    if "list_all2 same_trimmed ps cs" "concat ps @ tl = T" "strip tl = []" for ps cs tl
  proof -
    have "filter (\<lambda>c. \<not> isspace c) tl = []"
      using that(3) by (simp add: strip_empty_iff filter_empty_conv)
    then have "filter (\<lambda>c. \<not> isspace c) T = filter (\<lambda>c. \<not> isspace c) (concat ps)"
      using that(2) by (metis append_Nil2 filter_append)
    with same_trimmed_content [OF that(1)] show ?thesis by simp
  qed
  show ?thesis
  proof (cases "strip cur = []")
    case True
    have "split_chunks L T = Inr chunks" using r(1) True by (simp add: split_chunks_def)
    with r(2,3) True content [OF r(2,3) True] show ?thesis by blast
  next
    case False
    have s: "split_chunks L T = Inr (chunks @ [strip cur])"
      using r(1) False by (simp add: split_chunks_def)
    have a: "list_all2 same_trimmed (pieces @ [cur]) (chunks @ [strip cur])"
      using r(2) by (auto simp: same_trimmed_strip intro!: list_all2_appendI)
    have b: "concat (pieces @ [cur]) @ [] = T" using r(3) by simp
    have c: "strip [] = []" by (simp add: strip_def)
    from s a b c content [OF a b c] show ?thesis by blast
  qed
qed


theorem split_chunks_reconstructs_witness:
  "(0::int) < 5
   \<and> (\<exists>chunks pieces tail.
         split_chunks 5 (''ab '' @ [newline] @ ''cdefgh'' @ [newline]) = Inr chunks
       \<and> concat pieces @ tail = ''ab '' @ [newline] @ ''cdefgh'' @ [newline]
       \<and> list_all2 same_trimmed pieces chunks \<and> strip tail = [])
   \<and> split_chunks 5 (''ab '' @ [newline] @ ''cdefgh'' @ [newline]) = Inr [''ab'', ''cdefg'', ''h'']"
proof -
  have "split_chunks 5 (''ab '' @ [newline] @ ''cdefgh'' @ [newline]) = Inr [''ab'', ''cdefg'', ''h'']"
    by (simp add: split_chunks_def strip_def isspace_def newline_def line_slices_def upt_rec)
  with split_chunks_reconstructs [of 5 "''ab '' @ [newline] @ ''cdefgh'' @ [newline]"]
  show ?thesis by auto
qed

section \<open>Format fallback and reply reference of the Delivery Engine\<close>







lemma attempt_loop_step:
  "attempt_loop tr i c r (a # atts) body mode st =
     (let st1 = call_send (SendChunk i body (if i = 0 then r else None) mode) st
      in case tr (calls st) of
           Sent \<Rightarrow> st1
         | RetryAfter d \<Rightarrow> attempt_loop tr i c r atts body mode (log_event (Sleep d) st1)
         | BadRequest m \<Rightarrow>
             if is_parse_failure m \<and> mode = Some MARKDOWN \<and> a < max_retries_markdown_fail
             then attempt_loop tr i c r atts c None st1
             else if i = 0 then call_send (SendNotice bad_request_notice) st1 else st1
         | TelegramError \<Rightarrow>
             if i = 0 then call_send (SendNotice telegram_error_notice) st1 else st1
         | OtherException \<Rightarrow>
             if i = 0 \<and> r = None then call_send (SendNotice unexpected_error_notice) st1
             else st1)"
  by (simp add: Let_def)

lemma attempt_loop_extends:
  "\<exists>evs. trace (attempt_loop tr i c r atts body mode st) = trace st @ evs"
proof (induction atts arbitrary: body mode st)
  case Nil
  show ?case by simp
next
  case (Cons a atts)
  define e where "e = SendChunk i body (if i = 0 then r else None) mode"
  define st1 where "st1 = call_send e st"
  have t1: "trace st1 = trace st @ [e]" by (simp add: st1_def call_send_def)
  have note1: "trace (call_send x st1) = trace st @ [e, x]" for x
    by (simp add: t1 call_send_def)
  have ih: "\<exists>evs. trace (attempt_loop tr i c r atts b m s) = trace st @ evs"
    if "\<exists>evs. trace s = trace st @ evs" for b m s
    using Cons.IH [of b m s] that by (metis append.assoc)
  have s1: "\<exists>evs. trace st1 = trace st @ evs" using t1 by blast
  have s2: "\<exists>evs. trace (log_event (Sleep d) st1) = trace st @ evs" for d
    by (simp add: log_event_def t1)
  have s3: "\<exists>evs. trace (call_send x st1) = trace st @ evs" for x
    using note1 by blast
  show ?case
    unfolding attempt_loop_step Let_def e_def [symmetric] st1_def [symmetric]
    using s1 s3 ih [OF s1] ih [OF s2]
    by (auto split: send_outcome.splits)
qed

lemma attempt_loop_first:
  "\<exists>evs. trace (attempt_loop tr i c r (a # atts) body mode st)
     = trace st @ SendChunk i body (if i = 0 then r else None) mode # evs"
proof -
  define e where "e = SendChunk i body (if i = 0 then r else None) mode"
  define st1 where "st1 = call_send e st"
  have t1: "trace st1 = trace st @ [e]" by (simp add: st1_def call_send_def)
  have ext: "\<exists>evs. trace (attempt_loop tr i c r atts b m s) = trace st @ e # evs"
    if "\<exists>evs. trace s = trace st @ e # evs" for b m s
    using attempt_loop_extends [of tr i c r atts b m s] that by (metis append.assoc append_Cons)
  have s1: "\<exists>evs. trace st1 = trace st @ e # evs" using t1 by simp
  have s2: "\<exists>evs. trace (log_event (Sleep d) st1) = trace st @ e # evs" for d
    by (simp add: log_event_def t1)
  have s3: "\<exists>evs. trace (call_send x st1) = trace st @ e # evs" for x
    by (simp add: t1 call_send_def)
  show ?thesis
    unfolding attempt_loop_step Let_def e_def [symmetric] st1_def [symmetric]
    using s1 s3 ext [OF s1] ext [OF s2]
    by (auto split: send_outcome.splits)
qed

lemma pause_after_extends: "\<exists>evs. trace (pause_after n i st) = trace st @ evs"
  by (simp add: pause_after_def log_event_def)

lemma chunk_loop_extends:
  "\<exists>evs. trace (chunk_loop tr r pm n ics st) = trace st @ evs"
proof (induction ics arbitrary: st)
  case Nil
  show ?case by simp
next
  case (Cons ic ics)
  obtain i c where ic: "ic = (i, c)" by (cases ic)
  show ?case
  proof (cases "c = []")
    case True
    with Cons.IH [of st] ic show ?thesis by simp
  next
    case False
    let ?a = "attempt_loop tr i c r [0 ..< max_retries_markdown_fail + 1]
                (fst (prepare_chunk pm c)) (snd (prepare_chunk pm c)) st"
    obtain e1 where e1: "trace ?a = trace st @ e1" using attempt_loop_extends by blast
    obtain e2 where e2: "trace (pause_after n i ?a) = trace ?a @ e2"
      using pause_after_extends by blast
    obtain e3 where e3: "trace (chunk_loop tr r pm n ics (pause_after n i ?a))
        = trace (pause_after n i ?a) @ e3" using Cons.IH by blast
    from e1 e2 e3 ic False show ?thesis by simp
  qed
qed

lemma chunk_loop_first:
  assumes "c \<noteq> []"
  shows "\<exists>evs. trace (chunk_loop tr r pm n ((0, c) # ics) idle)
     = SendChunk 0 (fst (prepare_chunk pm c)) r (snd (prepare_chunk pm c)) # evs"
proof -
  let ?a = "attempt_loop tr 0 c r [0 ..< max_retries_markdown_fail + 1]
                (fst (prepare_chunk pm c)) (snd (prepare_chunk pm c)) idle"
  have "[0 ..< max_retries_markdown_fail + 1] = 0 # [1 ..< max_retries_markdown_fail + 1]"
    by (simp add: upt_rec)
  then obtain e1 where e1: "trace ?a = trace idle @
      SendChunk 0 (fst (prepare_chunk pm c)) (if (0::nat) = 0 then r else None) (snd (prepare_chunk pm c)) # e1"
    using attempt_loop_first [of tr 0 c r 0 "[1 ..< max_retries_markdown_fail + 1]"] by metis
  obtain e2 where e2: "trace (pause_after n 0 ?a) = trace ?a @ e2"
    using pause_after_extends by blast
  obtain e3 where e3: "trace (chunk_loop tr r pm n ics (pause_after n 0 ?a))
        = trace (pause_after n 0 ?a) @ e3" using chunk_loop_extends by blast
  from e1 e2 e3 assms show ?thesis by (simp add: idle_def)
qed

lemma split_chunks_empty_text: "split_chunks L [] = Inr (c # cs) \<Longrightarrow> c = []"
  by (auto simp: split_chunks_def strip_def line_slices_def split: if_splits)

lemma send_long_message_first:
  assumes "split_chunks (M - 20) t = Inr (c # cs)" and "c \<noteq> []"
  shows "\<exists>d evs. send_long_message tr M t r pm orig = Inr d
     \<and> trace d = SendChunk 0 (fst (prepare_chunk pm c)) r (snd (prepare_chunk pm c)) # evs"
proof -
  have t: "t \<noteq> []" using assms split_chunks_empty_text by blast
  have z: "zip [0 ..< length (c # cs)] (c # cs) = (0, c) # zip [1 ..< Suc (length cs)] cs"
    by (simp add: upt_rec)
  from chunk_loop_first [OF assms(2), of tr r pm "length (c # cs)" "zip [1 ..< Suc (length cs)] cs"]
  obtain evs where "trace (chunk_loop tr r pm (length (c # cs)) (zip [0 ..< length (c # cs)] (c # cs)) idle)
     = SendChunk 0 (fst (prepare_chunk pm c)) r (snd (prepare_chunk pm c)) # evs"
    unfolding z by blast
  with t assms(1) show ?thesis
    by (simp add: send_long_message_def Let_def del: upt_Suc)
qed


text \<open>
  Claim C9, as the claim states it, fails twice. How many chunks a text of 9000 characters
  gives depends on its line breaks: two lines of 4500 and 4499 characters are sliced into
  four chunks, and four messages are sent. And when the first line has exactly as many
  characters as the limit, the chunk of ordinal 0 is the empty one the splitter puts in
  front; it is skipped, and no message of the delivery carries the reply reference.
\<close>

theorem nine_thousand_characters_four_chunks:
  "length (replicate 4500 (CHR ''a'') @ [newline] @ replicate 4499 (CHR ''a'')) = 9000
   \<and> send_long_message (\<lambda>k. Sent) 4096
        (replicate 4500 (CHR ''a'') @ [newline] @ replicate 4499 (CHR ''a''))
        (Some 7) (Some MARKDOWN) None =
       Inr \<lparr>calls = 4,
            trace = [SendChunk 0 (replicate 4076 (CHR ''a'')) (Some 7) (Some MARKDOWN), Pace,
                     SendChunk 1 (replicate 424 (CHR ''a'')) None (Some MARKDOWN), Pace,
                     SendChunk 2 (replicate 4076 (CHR ''a'')) None (Some MARKDOWN), Pace,
                     SendChunk 3 (replicate 423 (CHR ''a'')) None (Some MARKDOWN)]\<rparr>
   \<and> send_long_message (\<lambda>k. Sent) 4096
        (replicate 4076 (CHR ''a'') @ [newline] @ ''a'')
        (Some 7) (Some MARKDOWN) None =
       Inr \<lparr>calls = 2,
            trace = [SendChunk 1 (replicate 4076 (CHR ''a'')) None (Some MARKDOWN), Pace,
                     SendChunk 2 ''a'' None (Some MARKDOWN)]\<rparr>"
proof -
  let ?a = "CHR ''a''"
  have nl: "newline \<notin> set (replicate n ?a)" for n by (simp add: newline_def)
  have lines: "split_nl (replicate 4500 ?a @ newline # replicate 4499 ?a)
     = [replicate 4500 ?a, replicate 4499 ?a]"
    using split_nl_append [OF nl, of 4500 "replicate 4499 ?a"] split_nl_single [OF nl, of 4499]
    by simp
  have lines2: "split_nl (replicate 4076 ?a @ newline # ''a'') = [replicate 4076 ?a, ''a'']"
    using split_nl_append [OF nl, of 4076 "''a''"] by (simp add: newline_def)
  have u: "[0 ..< (4500 + 4076 - 1) div 4076] = [0, 1::nat]"
     "[0 ..< (4499 + 4076 - 1) div 4076] = [0, 1::nat]" "[0 ..< 4] = [0, 1, 2, 3::nat]"
     "[0 ..< 3] = [0, 1, 2::nat]"
    by (simp_all add: upt_rec)
  have sl: "line_slices 4076 (replicate 4500 ?a) = [replicate 4076 ?a, replicate 424 ?a]"
     "line_slices 4076 (replicate 4499 ?a) = [replicate 4076 ?a, replicate 423 ?a]"
    using u by (simp_all add: line_slices_def)
  have chunks: "split_chunks 4076 (replicate 4500 ?a @ [newline] @ replicate 4499 ?a) =
     Inr [replicate 4076 ?a, replicate 424 ?a, replicate 4076 ?a, replicate 423 ?a]"
    by (simp add: split_chunks_def lines sl strip_def)
  have sp: "strip (replicate 4076 ?a @ [newline]) = replicate 4076 ?a"
    using strip_unique [of "[]" "[newline]" "replicate 4076 ?a"]
    by (simp add: isspace_def newline_def)
  have sa: "strip ''a'' = ''a''" by (simp add: strip_def isspace_def)
  have s0: "strip [] = []" by (simp add: strip_def)
  have chunks2: "split_chunks 4076 (replicate 4076 ?a @ [newline] @ ''a'') =
     Inr [[], replicate 4076 ?a, ''a'']"
    by (simp add: split_chunks_def lines2 sp sa s0)
  have e: "ensure_valid_markdown ''a'' = ''a''"
    using evm_replicate_a [of 1] by simp
  show ?thesis
    using chunks chunks2
    by (simp add: send_long_message_def Let_def u max_retries_markdown_fail_def call_send_def
          log_event_def pause_after_def idle_def prepare_chunk_markdown evm_replicate_a e)
qed


text \<open>
  Claim C9, amended. In every delivery each send of chunk 0 carries the caller's reply
  reference and each send of a later chunk carries none; and in every delivery whose first
  chunk is non-empty the first message sent is chunk 0, with the caller's reply reference.
  A text of 9000 characters without a line break is split, for the channel limit 4096 and
  the margin 20, into exactly three chunks of 4076, 4076 and 848 characters; when every
  send succeeds these are three messages, of which only the first carries the reply
  reference.
\<close>

theorem reply_reference_first_chunk_only:
  "(\<forall>d. send_long_message tr M t r pm orig = Inr d \<longrightarrow> list_all (reply_only_first r) (trace d))
   \<and> (split_chunks (M - 20) t = Inr (c # cs) \<and> c \<noteq> [] \<longrightarrow>
        (\<exists>d evs. send_long_message tr M t r pm orig = Inr d
           \<and> trace d = SendChunk 0 (fst (prepare_chunk pm c)) r (snd (prepare_chunk pm c)) # evs))
   \<and> (length T = 9000 \<and> newline \<notin> set T \<longrightarrow>
        split_chunks (4096 - 20) T = Inr [take 4076 T, take 4076 (drop 4076 T), drop 8152 T]
      \<and> send_long_message (\<lambda>k. Sent) 4096 T r pm orig =
          Inr \<lparr>calls = 3,
               trace =
                 [SendChunk 0 (fst (prepare_chunk pm (take 4076 T))) r
                    (snd (prepare_chunk pm (take 4076 T))),
                  Pace,
                  SendChunk 1 (fst (prepare_chunk pm (take 4076 (drop 4076 T)))) None
                    (snd (prepare_chunk pm (take 4076 (drop 4076 T)))),
                  Pace,
                  SendChunk 2 (fst (prepare_chunk pm (drop 8152 T))) None
                    (snd (prepare_chunk pm (drop 8152 T)))]\<rparr>)"
proof (intro conjI allI impI)
  fix d assume "send_long_message tr M t r pm orig = Inr d"
  then show "list_all (reply_only_first r) (trace d)"
    by (rule send_long_message_reply_only_first)
next
  assume "split_chunks (M - 20) t = Inr (c # cs) \<and> c \<noteq> []"
  then show "\<exists>d evs. send_long_message tr M t r pm orig = Inr d
           \<and> trace d = SendChunk 0 (fst (prepare_chunk pm c)) r (snd (prepare_chunk pm c)) # evs"
    using send_long_message_first by blast
next
  assume a: "length T = 9000 \<and> newline \<notin> set T"
  then show s: "split_chunks (4096 - 20) T = Inr [take 4076 T, take 4076 (drop 4076 T), drop 8152 T]"
    by (simp add: split_9000)
  have ne: "T \<noteq> []" "take 4076 T \<noteq> []" "take 4076 (drop 4076 T) \<noteq> []" "drop 8152 T \<noteq> []"
    using a by auto
  have u: "[0 ..< 3] = [0, 1, 2::nat]" by (simp add: upt_rec)
  show "send_long_message (\<lambda>k. Sent) 4096 T r pm orig =
          Inr \<lparr>calls = 3,
               trace =
                 [SendChunk 0 (fst (prepare_chunk pm (take 4076 T))) r
                    (snd (prepare_chunk pm (take 4076 T))),
                  Pace,
                  SendChunk 1 (fst (prepare_chunk pm (take 4076 (drop 4076 T)))) None
                    (snd (prepare_chunk pm (take 4076 (drop 4076 T)))),
                  Pace,
                  SendChunk 2 (fst (prepare_chunk pm (drop 8152 T))) None
                    (snd (prepare_chunk pm (drop 8152 T)))]\<rparr>"
    using s ne
    by (simp add: send_long_message_def Let_def u max_retries_markdown_fail_def call_send_def
          log_event_def pause_after_def idle_def)
qed


theorem reply_reference_first_chunk_only_witness:
  "split_chunks (4096 - 20) ''*hi'' = Inr [''*hi'']
   \<and> (\<exists>d evs. send_long_message (\<lambda>k. TelegramError) 4096 ''*hi'' (Some 7) (Some MARKDOWN) None = Inr d
         \<and> trace d = SendChunk 0 ''*hi*'' (Some 7) (Some MARKDOWN) # evs)
   \<and> split_chunks (4096 - 20) (replicate 9000 (CHR ''a'')) =
     Inr [replicate 4076 (CHR ''a''), replicate 4076 (CHR ''a''), replicate 848 (CHR ''a'')]
   \<and> send_long_message (\<lambda>k. Sent) 4096 (replicate 9000 (CHR ''a'')) (Some 7) (Some MARKDOWN) None =
       Inr \<lparr>calls = 3,
            trace = [SendChunk 0 (replicate 4076 (CHR ''a'')) (Some 7) (Some MARKDOWN), Pace,
                     SendChunk 1 (replicate 4076 (CHR ''a'')) None (Some MARKDOWN), Pace,
                     SendChunk 2 (replicate 848 (CHR ''a'')) None (Some MARKDOWN)]\<rparr>"
proof -
  have e: "ensure_valid_markdown ''*hi'' = ''*hi*''"
    by (simp add: ensure_valid_markdown_def single_char_symbols_def multi_char_symbol_def)
  show ?thesis
    using reply_reference_first_chunk_only [of "\<lambda>k. TelegramError" 4096 "''*hi''" "Some 7" "Some MARKDOWN" None
       "''*hi''" "[]" "replicate 9000 (CHR ''a'')"]
      split_hi
    by (simp add: newline_def prepare_chunk_markdown evm_replicate_a e)
qed


end
